theory Spec2Isabelle
  imports Complex_Main
begin

section \<open>The pair-exchange codec of the CoinAPI provider\<close>

text \<open>
  JavaScript values that are either a string or \<^verbatim>\<open>undefined\<close> are modelled as
  \<open>string option\<close>, with \<open>None\<close> for \<^verbatim>\<open>undefined\<close>. Array destructuring
  \<^verbatim>\<open>const [exchange, type, from, to] = symbol.split("_")\<close> binds \<^verbatim>\<open>undefined\<close> to every
  name beyond the end of the array and ignores the elements after the fourth.
\<close>

type_synonym jsstring = "string option"

text \<open>
  \<^verbatim>\<open>String.prototype.split\<close> with a one-character separator: the string is cut at every
  occurrence of the separator; the empty string gives one empty piece.
\<close>

fun extend_first :: "char \<Rightarrow> string list \<Rightarrow> string list" where
  "extend_first x [] = [[x]]"
| "extend_first x (piece # pieces) = (x # piece) # pieces"

fun split_sep :: "char \<Rightarrow> string \<Rightarrow> string list" where
  "split_sep c [] = [[]]"
| "split_sep c (x # xs) =
     (if x = c then [] # split_sep c xs else extend_first x (split_sep c xs))"

definition seg :: "string list \<Rightarrow> nat \<Rightarrow> jsstring" where
  "seg parts i = (if i < length parts then Some (parts ! i) else None)"

text \<open>A template literal prints \<^verbatim>\<open>undefined\<close> as the nine letters of its name.\<close>

definition show_js :: "jsstring \<Rightarrow> string" where
  "show_js v = (case v of None \<Rightarrow> ''undefined'' | Some s \<Rightarrow> s)"

text \<open>
  Modelled from the spec: the type \<^verbatim>\<open>PairExchange\<close> of \<^verbatim>\<open>../types\<close> and the helpers
  \<^verbatim>\<open>pairExchange\<close> and \<^verbatim>\<open>pairExchangeFromId\<close> of \<^verbatim>\<open>../utils\<close> are not part of the
  sources at hand. The spec's data model makes a pair-exchange identifier the immutable
  triple of exchange, from-asset and to-asset, compared structurally. The provider reads the
  fields \<^verbatim>\<open>id\<close>, \<^verbatim>\<open>exchange\<close>, \<^verbatim>\<open>from\<close> and \<^verbatim>\<open>to\<close> of a \<^verbatim>\<open>PairExchange\<close>, so
  \<open>pairExchange\<close> builds the object around the triple of its three arguments and
  \<open>pairExchangeFromId\<close> builds it around a given triple. This is what the helpers do
  for a valid identifier. What they answer for an asset outside the supported set and
  for a field that contains the separator is modelled apart, further down.
\<close>

record PairExchangeId =
  id_exchange :: jsstring
  id_from :: jsstring
  id_to :: jsstring

record PairExchange =
  pe_id :: PairExchangeId
  pe_exchange :: jsstring
  pe_from :: jsstring
  pe_to :: jsstring

definition pairExchange :: "jsstring \<Rightarrow> jsstring \<Rightarrow> jsstring \<Rightarrow> PairExchange" where
  "pairExchange exchange frm to =
     \<lparr>pe_id = \<lparr>id_exchange = exchange, id_from = frm, id_to = to\<rparr>,
      pe_exchange = exchange, pe_from = frm, pe_to = to\<rparr>"

definition pairExchangeFromId :: "PairExchangeId \<Rightarrow> PairExchange" where
  "pairExchangeFromId i =
     \<lparr>pe_id = i, pe_exchange = id_exchange i, pe_from = id_from i, pe_to = id_to i\<rparr>"

text \<open>
  \<^verbatim>\<open>symbolToPairExchange\<close> (coinapi.js, lines 65 to 69). The bare \<^verbatim>\<open>return\<close> yields
  \<^verbatim>\<open>undefined\<close>, here \<open>None\<close>.
\<close>

definition symbolToPairExchange :: "string \<Rightarrow> PairExchange option" where
  "symbolToPairExchange symbol =
     (let parts = split_sep CHR ''_'' symbol;
          exchange = seg parts 0;
          typ = seg parts 1;
          frm = seg parts 2;
          to = seg parts 3
      in if typ \<noteq> Some ''SPOT'' then None
         else Some (pairExchange exchange frm to))"

text \<open>\<^verbatim>\<open>pairExchangeIdToSymbol\<close> (coinapi.js, lines 71 to 74).\<close>

definition pairExchangeIdToSymbol :: "PairExchangeId \<Rightarrow> string" where
  "pairExchangeIdToSymbol pairExchangeId =
     (let p = pairExchangeFromId pairExchangeId
      in show_js (pe_exchange p) @ ''_SPOT_'' @ show_js (pe_from p) @ ''_'' @ show_js (pe_to p))"

definition has_sep :: "jsstring \<Rightarrow> bool" where
  "has_sep v = (case v of None \<Rightarrow> False | Some s \<Rightarrow> CHR ''_'' \<in> set s)"

definition valid_id :: "PairExchangeId \<Rightarrow> bool" where
  "valid_id i =
     (id_exchange i \<noteq> None \<and> id_from i \<noteq> None \<and> id_to i \<noteq> None \<and>
      \<not> has_sep (id_exchange i) \<and> \<not> has_sep (id_from i) \<and> \<not> has_sep (id_to i))"

text \<open>
  Modelled from the spec: what \<^verbatim>\<open>pairExchange\<close> of \<^verbatim>\<open>../utils\<close> returns for an asset
  outside the supported set, and what \<^verbatim>\<open>pairExchangeFromId\<close> of \<^verbatim>\<open>../utils\<close> does
  with an identifier that has the separator in a field, is decided by code that is not
  among the files verified here. Section 4.1 of the spec has decode return none when
  either asset is outside the supported asset set, and has encode fail with an encoding
  error when a field of the identifier contains the separator. Lines 65 to 74 of
  coinapi.js test nothing but the spot marker, so both answers are the helpers':
  \<open>pairExchange_spec\<close> returns nothing unless both assets are supported, and
  \<open>pairExchangeFromId_spec\<close> raises the encoding error on a separator; on all other
  arguments they are \<open>pairExchange\<close> and \<open>pairExchangeFromId\<close>. \<^verbatim>\<open>supportTicker\<close> of
  \<^verbatim>\<open>../utils\<close> is a parameter. The two functions of coinapi.js are repeated with these
  helpers: \<^verbatim>\<open>symbolToPairExchange\<close> returns what the helper returns, and an exception of
  the helper leaves \<^verbatim>\<open>pairExchangeIdToSymbol\<close>, which has no \<^verbatim>\<open>try\<close>.
\<close>

datatype encode_error = EncodingError

definition pairExchange_spec ::
  "(jsstring \<Rightarrow> bool) \<Rightarrow> jsstring \<Rightarrow> jsstring \<Rightarrow> jsstring \<Rightarrow> PairExchange option" where
  "pairExchange_spec supportTicker exchange frm to =
     (if supportTicker frm \<and> supportTicker to then Some (pairExchange exchange frm to)
      else None)"

definition symbolToPairExchange_spec :: "(jsstring \<Rightarrow> bool) \<Rightarrow> string \<Rightarrow> PairExchange option" where
  "symbolToPairExchange_spec supportTicker symbol =
     (let parts = split_sep CHR ''_'' symbol;
          exchange = seg parts 0;
          typ = seg parts 1;
          frm = seg parts 2;
          to = seg parts 3
      in if typ \<noteq> Some ''SPOT'' then None
         else pairExchange_spec supportTicker exchange frm to)"

definition pairExchangeFromId_spec :: "PairExchangeId \<Rightarrow> encode_error + PairExchange" where
  "pairExchangeFromId_spec i =
     (if has_sep (id_exchange i) \<or> has_sep (id_from i) \<or> has_sep (id_to i)
      then Inl EncodingError
      else Inr (pairExchangeFromId i))"

definition pairExchangeIdToSymbol_spec :: "PairExchangeId \<Rightarrow> encode_error + string" where
  "pairExchangeIdToSymbol_spec pairExchangeId =
     (case pairExchangeFromId_spec pairExchangeId of
        Inl e \<Rightarrow> Inl e
      | Inr p \<Rightarrow>
          Inr (show_js (pe_exchange p) @ ''_SPOT_'' @ show_js (pe_from p) @ ''_''
                 @ show_js (pe_to p)))"


section \<open>The streaming connection\<close>

text \<open>
  The value \<^verbatim>\<open>JSON.parse\<close> returns. A JSON number is a decimal literal; the provider
  never computes with it, so it is kept as the rational it denotes.
\<close>

datatype json =
    JNull
  | JBool bool
  | JNumber rat
  | JString string
  | JArray "json list"
  | JObject "(string \<times> json) list"

text \<open>
  \<^verbatim>\<open>r && typeof r === "object"\<close>: \<^verbatim>\<open>null\<close> is falsy, and of the other values only
  objects and arrays have the type tag \<^verbatim>\<open>"object"\<close>.
\<close>

fun is_object :: "json \<Rightarrow> bool" where
  "is_object (JObject kvs) = True"
| "is_object (JArray xs) = True"
| "is_object _ = False"

text \<open>
  Reading one of the properties \<^verbatim>\<open>type\<close>, \<^verbatim>\<open>message\<close>, \<^verbatim>\<open>symbol_id\<close> and
  \<^verbatim>\<open>price\<close>: an object has it when the parsed text had the key (the list of an object
  holds each key once), an array never has it; \<open>None\<close> is \<^verbatim>\<open>undefined\<close>.
\<close>

fun get_prop :: "json \<Rightarrow> string \<Rightarrow> json option" where
  "get_prop (JObject kvs) k = map_of kvs k"
| "get_prop _ k = None"

record PriceUpdate =
  pairExchangeId :: PairExchangeId
  price :: "json option"

datatype signal = OnNext PriceUpdate | OnError "json option" | OnComplete

datatype exn = SyntaxError | TypeError | UnhandledErrorEvent

text \<open>
  One subscription to the observable of \<^verbatim>\<open>subscribePriceUpdate\<close>: the socket \<^verbatim>\<open>ws\<close> and
  the subscriber \<^verbatim>\<open>o\<close>. Of the socket the model keeps how often \<^verbatim>\<open>ws.close()\<close> and
  \<^verbatim>\<open>ws.send\<close> of the hello frame were called. The subscriber is the object that rxjs
  hands to the function given to \<^verbatim>\<open>Observable.create\<close>; \<open>isStopped\<close> is its flag.
\<close>

record connection =
  isStopped :: bool
  closeCalls :: nat
  helloSent :: nat

definition subscribePriceUpdate :: connection where
  "subscribePriceUpdate = \<lparr>isStopped = False, closeCalls = 0, helloSent = 0\<rparr>"

definition ws_close :: "connection \<Rightarrow> connection" where
  "ws_close c = c\<lparr>closeCalls := Suc (closeCalls c)\<rparr>"

text \<open>The function \<^verbatim>\<open>unsubscribe\<close> of coinapi.js, lines 206 to 208: the teardown.\<close>

definition unsubscribe :: "connection \<Rightarrow> connection" where
  "unsubscribe c = ws_close c"

text \<open>
  The subscriber contract of rxjs (an external library; section 4.2 of the spec states
  the same contract for the connection handle). The methods \<^verbatim>\<open>next\<close>, \<^verbatim>\<open>error\<close> and
  \<^verbatim>\<open>complete\<close> of a subscriber test its flag \<^verbatim>\<open>isStopped\<close> first and do nothing when
  it is set, so a signal reaches the observer's callbacks only while the subscriber is
  not stopped. \<^verbatim>\<open>error\<close> and \<^verbatim>\<open>complete\<close> set the flag, call the callback and then
  unsubscribe, which runs the teardown that the function given to
  \<^verbatim>\<open>Observable.create\<close> returned. \<^verbatim>\<open>unsubscribe\<close> on the subscription, the handle that
  the subscriber of the stream holds, returns at once when the subscription is already
  closed, and otherwise sets the flag and runs the teardown. The listeners of the socket
  stay registered after that; what they pass to \<^verbatim>\<open>o\<close> is dropped there.
\<close>

definition o_next :: "PriceUpdate \<Rightarrow> connection \<Rightarrow> connection \<times> signal list" where
  "o_next v c = (if isStopped c then (c, []) else (c, [OnNext v]))"

definition o_error :: "json option \<Rightarrow> connection \<Rightarrow> connection \<times> signal list" where
  "o_error e c =
     (if isStopped c then (c, []) else (unsubscribe (c\<lparr>isStopped := True\<rparr>), [OnError e]))"

definition o_complete :: "connection \<Rightarrow> connection \<times> signal list" where
  "o_complete c =
     (if isStopped c then (c, []) else (unsubscribe (c\<lparr>isStopped := True\<rparr>), [OnComplete]))"

definition sub_unsubscribe :: "connection \<Rightarrow> connection" where
  "sub_unsubscribe c = (if isStopped c then c else unsubscribe (c\<lparr>isStopped := True\<rparr>))"

text \<open>The listener of \<^verbatim>\<open>open\<close> (lines 173 to 183) sends the hello frame.\<close>

definition on_open :: "connection \<Rightarrow> connection" where
  "on_open c = c\<lparr>helloSent := Suc (helloSent c)\<rparr>"

text \<open>
  The listener of \<^verbatim>\<open>message\<close> (lines 184 to 201). The data enters as what
  \<^verbatim>\<open>JSON.parse\<close> makes of it: \<open>None\<close> when it throws a \<^verbatim>\<open>SyntaxError\<close>, the parsed
  value otherwise. There is no \<^verbatim>\<open>try\<close> in the listener, so the exception leaves it.
  \<^verbatim>\<open>symbolToPairExchange\<close> calls \<^verbatim>\<open>split\<close> on \<^verbatim>\<open>r.symbol_id\<close>: when that is not a
  string (a missing key, \<^verbatim>\<open>null\<close>, a number, a boolean, an array, an object) the call
  throws a \<^verbatim>\<open>TypeError\<close>.
\<close>

definition on_message :: "json option \<Rightarrow> connection \<Rightarrow> exn + connection \<times> signal list" where
  "on_message parsed c =
     (case parsed of
        None \<Rightarrow> Inl SyntaxError
      | Some r \<Rightarrow>
          if is_object r then
            if get_prop r ''type'' = Some (JString ''error'') then
              (case o_error (get_prop r ''message'') c of (c', out) \<Rightarrow> Inr (ws_close c', out))
            else
              (case get_prop r ''symbol_id'' of
                 Some (JString symbol_id) \<Rightarrow>
                   (case symbolToPairExchange symbol_id of
                      None \<Rightarrow> Inr (c, [])
                    | Some maybePairExchange \<Rightarrow>
                        Inr (o_next \<lparr>pairExchangeId = pe_id maybePairExchange,
                                     price = get_prop r ''price''\<rparr> c))
               | _ \<Rightarrow> Inl TypeError)
          else Inr (c, []))"

text \<open>The listener of \<^verbatim>\<open>close\<close> (lines 202 to 204) ignores the close code.\<close>

definition on_close :: "nat \<Rightarrow> connection \<Rightarrow> connection \<times> signal list" where
  "on_close code c = o_complete c"

text \<open>
  The events a \<^verbatim>\<open>ws\<close> socket emits. \<^verbatim>\<open>close\<close> carries the close code: 1000 for a
  normal closure, 1006 when the transport was lost without a closing handshake. The
  provider registers no listener for \<^verbatim>\<open>error\<close>; an emitter without one throws the
  error at the place that emits it.
\<close>

datatype ws_event = WsOpen | WsMessage "json option" | WsClose nat | WsError

fun dispatch :: "ws_event \<Rightarrow> connection \<Rightarrow> exn + connection \<times> signal list" where
  "dispatch WsOpen c = Inr (on_open c, [])"
| "dispatch (WsMessage parsed) c = on_message parsed c"
| "dispatch (WsClose code) c = Inr (on_close code c)"
| "dispatch WsError c = Inl UnhandledErrorEvent"

text \<open>
  The signals of a sequence of socket events on one connection. An event whose listener
  throws signals nothing and leaves the connection as it was. In the process the
  exception is uncaught and ends the run (see \<open>step\<close> below); here the events after it
  are still taken into account, so that a statement that no signal fires also covers a
  process that survives the exception.
\<close>

fun signals_of :: "ws_event list \<Rightarrow> connection \<Rightarrow> signal list" where
  "signals_of [] c = []"
| "signals_of (e # es) c =
     (case dispatch e c of
        Inl x \<Rightarrow> signals_of es c
      | Inr (c', out) \<Rightarrow> out @ signals_of es c')"

section \<open>The supervisor loop\<close>

definition rebootTimeIfError :: nat where "rebootTimeIfError = 60 * 1000"
definition rebootTimeIfComplete :: nat where "rebootTimeIfComplete = 30 * 1000"
definition autoRebootHangTime :: nat where "autoRebootHangTime = 10 * 1000"
definition autoRebootInterval :: nat where "autoRebootInterval = 4 * 60 * 60 * 1000"

text \<open>
  The two callbacks that \<^verbatim>\<open>pullLoop\<close> hands to \<^verbatim>\<open>setTimeout\<close>: \<^verbatim>\<open>pullLoop\<close> itself, and
  the closure of lines 27 to 30 that holds the subscription \<^verbatim>\<open>sub\<close> of one call.
\<close>

datatype task = PullLoop | Rotation nat

text \<open>
  The state of the process: the clock in milliseconds, the pending timers with their
  deadlines in the order of the \<^verbatim>\<open>setTimeout\<close> calls, every connection opened so far
  (the index is the connection's identity) with the time it was opened, and what the
  external collaborators have received: the price updates, the errors logged by
  \<^verbatim>\<open>pullLiveRatesError\<close> and the number of calls of \<^verbatim>\<open>pullLiveRatesEnd\<close>.
\<close>

record supervisor =
  now :: nat
  timers :: "(nat \<times> task) list"
  conns :: "connection list"
  openedAt :: "nat list"
  sink :: "PriceUpdate list"
  errorLog :: "json option list"
  endLog :: nat

definition setTimeout :: "task \<Rightarrow> nat \<Rightarrow> supervisor \<Rightarrow> supervisor" where
  "setTimeout f delay s = s\<lparr>timers := timers s @ [(now s + delay, f)]\<rparr>"

text \<open>The error callback (lines 18 to 21) and the completion callback (lines 22 to 25).\<close>

definition onError :: "json option \<Rightarrow> supervisor \<Rightarrow> supervisor" where
  "onError error s = setTimeout PullLoop rebootTimeIfError (s\<lparr>errorLog := errorLog s @ [error]\<rparr>)"

definition onEnd :: "supervisor \<Rightarrow> supervisor" where
  "onEnd s = setTimeout PullLoop rebootTimeIfComplete (s\<lparr>endLog := Suc (endLog s)\<rparr>)"

text \<open>
  Modelled from the spec: \<^verbatim>\<open>pullLiveRates\<close> of \<^verbatim>\<open>./cache\<close> is not part of the sources at
  hand. By sections 4.2 and 6 of the spec it subscribes to the provider's stream with a
  sink for the price updates and the two callbacks it is given, and returns the handle
  of that subscription. \<open>deliver\<close> routes one signal of the connection to the sink or to
  the callback; \<open>pullLiveRates\<close> opens the connection.
\<close>

fun deliver :: "signal \<Rightarrow> supervisor \<Rightarrow> supervisor" where
  "deliver (OnNext u) s = s\<lparr>sink := sink s @ [u]\<rparr>"
| "deliver (OnError e) s = onError e s"
| "deliver OnComplete s = onEnd s"

definition pullLiveRates :: "supervisor \<Rightarrow> supervisor" where
  "pullLiveRates s =
     s\<lparr>conns := conns s @ [subscribePriceUpdate], openedAt := openedAt s @ [now s]\<rparr>"

text \<open>\<^verbatim>\<open>pullLoop\<close> (lines 16 to 31); \<open>sub\<close> is the index of the connection just opened.\<close>

definition pullLoop :: "supervisor \<Rightarrow> supervisor" where
  "pullLoop s =
     (let sub = length (conns s)
      in setTimeout (Rotation sub) autoRebootInterval (pullLiveRates s))"

text \<open>
  The closure of lines 27 to 30: \<^verbatim>\<open>sub.unsubscribe()\<close>, here \<open>cancel\<close>, then the restart.
\<close>

definition cancel :: "nat \<Rightarrow> supervisor \<Rightarrow> supervisor" where
  "cancel sub s = s\<lparr>conns := (conns s)[sub := sub_unsubscribe (conns s ! sub)]\<rparr>"

definition rotation :: "nat \<Rightarrow> supervisor \<Rightarrow> supervisor" where
  "rotation sub s = setTimeout PullLoop autoRebootHangTime (cancel sub s)"

fun run_task :: "task \<Rightarrow> supervisor \<Rightarrow> supervisor" where
  "run_task PullLoop s = pullLoop s"
| "run_task (Rotation sub) s = rotation sub s"

text \<open>
  The timer that fires next: the earliest deadline, and among equal deadlines the one set
  first.
\<close>

fun earliest :: "(nat \<times> task) list \<Rightarrow> (nat \<times> task) option" where
  "earliest [] = None"
| "earliest (x # xs) =
     (case earliest xs of
        None \<Rightarrow> Some x
      | Some y \<Rightarrow> if fst x \<le> fst y then Some x else Some y)"

text \<open>
  The event loop. \<open>Timer\<close> lets the clock reach the deadline of the next timer and runs
  its callback. \<open>Ws n t e\<close> is the socket event \<open>e\<close> of connection \<open>n\<close> at time \<open>t\<close>; it
  cannot come after the deadline of a pending timer, whose callback runs first. An
  exception that leaves a listener is uncaught.
\<close>

datatype event = Timer | Ws nat nat ws_event

datatype halt = NotEnabled | Uncaught exn

definition ws_enabled :: "nat \<Rightarrow> nat \<Rightarrow> supervisor \<Rightarrow> bool" where
  "ws_enabled n t s =
     (n < length (conns s) \<and> now s \<le> t \<and> (\<forall>x \<in> set (timers s). t \<le> fst x))"

fun step :: "event \<Rightarrow> supervisor \<Rightarrow> halt + supervisor" where
  "step Timer s =
     (case earliest (timers s) of
        None \<Rightarrow> Inl NotEnabled
      | Some (d, f) \<Rightarrow>
          Inr (run_task f (s\<lparr>now := max (now s) d, timers := remove1 (d, f) (timers s)\<rparr>)))"
| "step (Ws n t e) s =
     (if ws_enabled n t s then
        (case dispatch e (conns s ! n) of
           Inl x \<Rightarrow> Inl (Uncaught x)
         | Inr (c', out) \<Rightarrow>
             Inr (fold deliver out (s\<lparr>now := t, conns := (conns s)[n := c']\<rparr>)))
      else Inl NotEnabled)"

fun run :: "event list \<Rightarrow> supervisor \<Rightarrow> halt + supervisor" where
  "run [] s = Inr s"
| "run (e # es) s = (case step e s of Inl h \<Rightarrow> Inl h | Inr s' \<Rightarrow> run es s')"

text \<open>The process starts the loop once (line 33), here at time 0.\<close>

definition start :: supervisor where
  "start = pullLoop \<lparr>now = 0, timers = [], conns = [], openedAt = [],
                     sink = [], errorLog = [], endLog = 0\<rparr>"

definition liveConns :: "supervisor \<Rightarrow> nat list" where
  "liveConns s = filter (\<lambda>n. \<not> isStopped (conns s ! n)) [0..<length (conns s)]"

text \<open>
  What holds in every state the loop reaches: each connection has its opening time, which
  is not in the future; no pending timer is overdue; a pending rotation belongs to a
  connection that exists and is due one \<open>autoRebootInterval\<close> after that connection was
  opened; and the rotation of a connection that is not stopped is still pending.
\<close>

definition wf :: "supervisor \<Rightarrow> bool" where
  "wf s \<longleftrightarrow>
     length (openedAt s) = length (conns s) \<and>
     (\<forall>x \<in> set (openedAt s). x \<le> now s) \<and>
     (\<forall>x \<in> set (timers s). now s \<le> fst x) \<and>
     (\<forall>d n. (d, Rotation n) \<in> set (timers s) \<longrightarrow>
        n < length (conns s) \<and> d = openedAt s ! n + autoRebootInterval) \<and>
     (\<forall>n < length (conns s). \<not> isStopped (conns s ! n) \<longrightarrow>
        (openedAt s ! n + autoRebootInterval, Rotation n) \<in> set (timers s))"

section \<open>Facts about splitting\<close>

lemma split_sep_ne: "split_sep c s \<noteq> []"
  by (induction s) (auto elim: extend_first.elims)

lemma split_sep_nosep: "c \<notin> set a \<Longrightarrow> split_sep c a = [a]"
  by (induction a) auto

lemma split_sep_app: "c \<notin> set a \<Longrightarrow> split_sep c (a @ c # r) = a # split_sep c r"
  by (induction a) auto

lemma decode_four:
  assumes "CHR ''_'' \<notin> set e" "CHR ''_'' \<notin> set ty" "CHR ''_'' \<notin> set f" "CHR ''_'' \<notin> set t"
  shows "symbolToPairExchange (e @ ''_'' @ ty @ ''_'' @ f @ ''_'' @ t) =
           (if ty = ''SPOT'' then Some (pairExchange (Some e) (Some f) (Some t)) else None)"
proof -
  have "split_sep CHR ''_'' (e @ CHR ''_'' # (ty @ CHR ''_'' # (f @ CHR ''_'' # t))) = [e, ty, f, t]"
    using assms by (simp add: split_sep_app split_sep_nosep)
  then show ?thesis
    by (simp add: symbolToPairExchange_def seg_def)
qed

section \<open>Claims about the codec\<close>

text \<open>
  Claim C6. A symbol whose second segment is not the spot marker decodes to nothing;
  this is decided by \<^verbatim>\<open>symbolToPairExchange\<close> alone, whatever the helper does. A spot
  symbol decodes to nothing when either of its assets is outside the supported set; this
  is the answer of the helper as the spec has it. For a symbol of four segments the
  result is the pair of the first, third and fourth segment exactly when the second
  segment is the spot marker and both assets are supported.
\<close>

theorem decode_none:
  "(seg (split_sep CHR ''_'' symbol) 1 \<noteq> Some ''SPOT'' \<longrightarrow>
      symbolToPairExchange symbol = None
      \<and> symbolToPairExchange_spec supportTicker symbol = None)
   \<and> (\<not> supportTicker (seg (split_sep CHR ''_'' symbol) 2)
        \<or> \<not> supportTicker (seg (split_sep CHR ''_'' symbol) 3) \<longrightarrow>
      symbolToPairExchange_spec supportTicker symbol = None)
   \<and> (CHR ''_'' \<notin> set e \<and> CHR ''_'' \<notin> set ty \<and> CHR ''_'' \<notin> set f \<and> CHR ''_'' \<notin> set t \<longrightarrow>
      symbolToPairExchange_spec supportTicker (e @ ''_'' @ ty @ ''_'' @ f @ ''_'' @ t) =
        (if ty = ''SPOT'' \<and> supportTicker (Some f) \<and> supportTicker (Some t)
         then Some (pairExchange (Some e) (Some f) (Some t)) else None))"
proof -
  have a: "seg (split_sep CHR ''_'' symbol) 1 \<noteq> Some ''SPOT'' \<longrightarrow>
      symbolToPairExchange symbol = None
      \<and> symbolToPairExchange_spec supportTicker symbol = None"
    by (simp add: symbolToPairExchange_def symbolToPairExchange_spec_def Let_def)
  have b: "\<not> supportTicker (seg (split_sep CHR ''_'' symbol) 2)
        \<or> \<not> supportTicker (seg (split_sep CHR ''_'' symbol) 3) \<longrightarrow>
      symbolToPairExchange_spec supportTicker symbol = None"
    by (auto simp: symbolToPairExchange_spec_def pairExchange_spec_def Let_def)
  have c: "symbolToPairExchange_spec supportTicker (e @ ''_'' @ ty @ ''_'' @ f @ ''_'' @ t) =
        (if ty = ''SPOT'' \<and> supportTicker (Some f) \<and> supportTicker (Some t)
         then Some (pairExchange (Some e) (Some f) (Some t)) else None)"
    if clean: "CHR ''_'' \<notin> set e \<and> CHR ''_'' \<notin> set ty \<and> CHR ''_'' \<notin> set f \<and> CHR ''_'' \<notin> set t"
  proof -
    have "split_sep CHR ''_'' (e @ CHR ''_'' # (ty @ CHR ''_'' # (f @ CHR ''_'' # t)))
        = [e, ty, f, t]"
      using clean by (simp add: split_sep_app split_sep_nosep)
    then show ?thesis
      by (simp add: symbolToPairExchange_spec_def pairExchange_spec_def seg_def Let_def)
  qed
  from a b c show ?thesis by blast
qed

theorem decode_none_witness:
  "symbolToPairExchange ''KRAKEN_MARGIN_BTC_USD'' = None
   \<and> symbolToPairExchange_spec (\<lambda>t. t \<in> set [Some ''BTC'', Some ''USD''])
        ''KRAKEN_MARGIN_BTC_USD'' = None
   \<and> Some ''XXX'' \<notin> set [Some ''BTC'', Some ''USD'']
   \<and> symbolToPairExchange_spec (\<lambda>t. t \<in> set [Some ''BTC'', Some ''USD''])
        ''KRAKEN_SPOT_XXX_USD'' = None
   \<and> symbolToPairExchange_spec (\<lambda>t. t \<in> set [Some ''BTC'', Some ''USD''])
        ''KRAKEN_SPOT_BTC_USD''
       = Some (pairExchange (Some ''KRAKEN'') (Some ''BTC'') (Some ''USD''))"
proof -
  let ?sup = "\<lambda>t. t \<in> set [Some ''BTC'', Some ''USD'']"
  have m: "seg (split_sep CHR ''_'' ''KRAKEN_MARGIN_BTC_USD'') 1 \<noteq> Some ''SPOT''"
    by (simp add: seg_def)
  have x: "\<not> ?sup (seg (split_sep CHR ''_'' ''KRAKEN_SPOT_XXX_USD'') 2)"
    by (simp add: seg_def)
  have 1: "symbolToPairExchange ''KRAKEN_MARGIN_BTC_USD'' = None
      \<and> symbolToPairExchange_spec ?sup ''KRAKEN_MARGIN_BTC_USD'' = None"
    using decode_none[where symbol = "''KRAKEN_MARGIN_BTC_USD''" and supportTicker = ?sup] m
    by blast
  have 2: "symbolToPairExchange_spec ?sup ''KRAKEN_SPOT_XXX_USD'' = None"
    using decode_none[where symbol = "''KRAKEN_SPOT_XXX_USD''" and supportTicker = ?sup] x
    by blast
  have 3: "symbolToPairExchange_spec ?sup
      (''KRAKEN'' @ ''_'' @ ''SPOT'' @ ''_'' @ ''BTC'' @ ''_'' @ ''USD'')
       = Some (pairExchange (Some ''KRAKEN'') (Some ''BTC'') (Some ''USD''))"
    using decode_none[where supportTicker = ?sup and e = "''KRAKEN''" and ty = "''SPOT''"
        and f = "''BTC''" and t = "''USD''"]
    by simp
  from 1 2 3 show ?thesis by simp
qed

text \<open>
  Claim C7. For every valid identifier, one whose three fields are strings without the
  separator, decoding the symbol that encoding produces yields the pair of that
  identifier, and the \<^verbatim>\<open>id\<close> of that pair is the identifier itself.
\<close>

theorem decode_encode_roundtrip:
  assumes "valid_id i"
  shows "symbolToPairExchange (pairExchangeIdToSymbol i) = Some (pairExchangeFromId i)
       \<and> map_option pe_id (symbolToPairExchange (pairExchangeIdToSymbol i)) = Some i"
proof -
  from assms obtain e f t where i: "id_exchange i = Some e" "id_from i = Some f" "id_to i = Some t"
    and clean: "CHR ''_'' \<notin> set e" "CHR ''_'' \<notin> set f" "CHR ''_'' \<notin> set t"
    by (auto simp: valid_id_def has_sep_def)
  have "pairExchangeIdToSymbol i = e @ ''_'' @ ''SPOT'' @ ''_'' @ f @ ''_'' @ t"
    by (simp add: pairExchangeIdToSymbol_def pairExchangeFromId_def show_js_def i)
  then have "symbolToPairExchange (pairExchangeIdToSymbol i)
      = Some (pairExchange (Some e) (Some f) (Some t))"
    using decode_four[OF clean(1) _ clean(2) clean(3), of "''SPOT''"] by simp
  also have "pairExchange (Some e) (Some f) (Some t) = pairExchangeFromId i"
    using i by (simp add: pairExchange_def pairExchangeFromId_def)
  finally have "symbolToPairExchange (pairExchangeIdToSymbol i) = Some (pairExchangeFromId i)" .
  then show ?thesis by (simp add: pairExchangeFromId_def)
qed

theorem decode_encode_roundtrip_witness:
  "valid_id \<lparr>id_exchange = Some ''KRAKEN'', id_from = Some ''BTC'', id_to = Some ''USD''\<rparr>
   \<and> pairExchangeIdToSymbol \<lparr>id_exchange = Some ''KRAKEN'', id_from = Some ''BTC'', id_to = Some ''USD''\<rparr>
       = ''KRAKEN_SPOT_BTC_USD''
   \<and> map_option pe_id (symbolToPairExchange ''KRAKEN_SPOT_BTC_USD'')
       = Some \<lparr>id_exchange = Some ''KRAKEN'', id_from = Some ''BTC'', id_to = Some ''USD''\<rparr>"
proof -
  let ?i = "\<lparr>id_exchange = Some ''KRAKEN'', id_from = Some ''BTC'', id_to = Some ''USD''\<rparr>"
  have v: "valid_id ?i" by (simp add: valid_id_def has_sep_def)
  have e: "pairExchangeIdToSymbol ?i = ''KRAKEN_SPOT_BTC_USD''"
    by (simp add: pairExchangeIdToSymbol_def pairExchangeFromId_def show_js_def)
  from decode_encode_roundtrip[OF v] v e show ?thesis by (simp add: pairExchangeFromId_def)
qed

text \<open>
  Claim C8. For every identifier in which a field contains the separator, encoding fails
  with the encoding error and produces no symbol: the helper raises it, as the spec has
  it, and \<^verbatim>\<open>pairExchangeIdToSymbol\<close> does not catch it. For every other identifier the
  result is the symbol of \<open>pairExchangeIdToSymbol\<close>.
\<close>

theorem encode_fails_on_separator:
  "(has_sep (id_exchange i) \<or> has_sep (id_from i) \<or> has_sep (id_to i) \<longrightarrow>
      pairExchangeIdToSymbol_spec i = Inl EncodingError)
   \<and> (\<not> has_sep (id_exchange i) \<and> \<not> has_sep (id_from i) \<and> \<not> has_sep (id_to i) \<longrightarrow>
      pairExchangeIdToSymbol_spec i = Inr (pairExchangeIdToSymbol i))"
  by (simp add: pairExchangeIdToSymbol_spec_def pairExchangeFromId_spec_def
        pairExchangeIdToSymbol_def Let_def)

theorem encode_fails_on_separator_witness:
  "has_sep (id_exchange \<lparr>id_exchange = Some ''A_B'', id_from = Some ''BTC'', id_to = Some ''USD''\<rparr>)
   \<and> pairExchangeIdToSymbol_spec
        \<lparr>id_exchange = Some ''A_B'', id_from = Some ''BTC'', id_to = Some ''USD''\<rparr>
       = Inl EncodingError
   \<and> pairExchangeIdToSymbol_spec
        \<lparr>id_exchange = Some ''KRAKEN'', id_from = Some ''BTC'', id_to = Some ''USD''\<rparr>
       = Inr ''KRAKEN_SPOT_BTC_USD''"
proof -
  let ?bad = "\<lparr>id_exchange = Some ''A_B'', id_from = Some ''BTC'', id_to = Some ''USD''\<rparr>"
  let ?good = "\<lparr>id_exchange = Some ''KRAKEN'', id_from = Some ''BTC'', id_to = Some ''USD''\<rparr>"
  have h: "has_sep (id_exchange ?bad)" by (simp add: has_sep_def)
  have g: "\<not> has_sep (id_exchange ?good) \<and> \<not> has_sep (id_from ?good) \<and> \<not> has_sep (id_to ?good)"
    by (simp add: has_sep_def)
  have e: "pairExchangeIdToSymbol ?good = ''KRAKEN_SPOT_BTC_USD''"
    by (simp add: pairExchangeIdToSymbol_def pairExchangeFromId_def show_js_def)
  from encode_fails_on_separator[of ?bad] h
  have 1: "pairExchangeIdToSymbol_spec ?bad = Inl EncodingError" by blast
  from encode_fails_on_separator[of ?good] g
  have "pairExchangeIdToSymbol_spec ?good = Inr (pairExchangeIdToSymbol ?good)" by blast
  then have 2: "pairExchangeIdToSymbol_spec ?good = Inr ''KRAKEN_SPOT_BTC_USD''"
    unfolding e .
  from h 1 2 show ?thesis by (intro conjI)
qed

section \<open>Facts about one connection\<close>

lemmas conn_defs = on_message_def o_error_def o_complete_def o_next_def on_close_def
  on_open_def unsubscribe_def ws_close_def sub_unsubscribe_def

lemma dispatch_stopped:
  "isStopped c \<Longrightarrow> dispatch e c = Inr (c', out) \<Longrightarrow> out = [] \<and> isStopped c'"
  by (cases e) (auto simp: conn_defs split: option.splits json.splits if_splits)

lemma signals_of_stopped: "isStopped c \<Longrightarrow> signals_of es c = []"
proof (induction es arbitrary: c)
  case Nil
  show ?case by simp
next
  case (Cons e es)
  show ?case
  proof (cases "dispatch e c")
    case (Inl x)
    with Cons show ?thesis by simp
  next
    case (Inr p)
    obtain c' out where p: "p = (c', out)" by (cases p)
    from dispatch_stopped[OF Cons.prems] Inr p have "out = []" "isStopped c'" by auto
    with Cons.IH Inr p show ?thesis by simp
  qed
qed

lemma sub_unsubscribe_stopped: "isStopped (sub_unsubscribe c)"
  by (simp add: conn_defs)

section \<open>Claims about one connection\<close>

text \<open>
  Claim C4, as amended. On a connection whose subscriber is not stopped, a frame that is
  an object tagged \<^verbatim>\<open>error\<close> ends the connection with \<^verbatim>\<open>onError\<close> carrying the
  frame's message, and whatever the socket emits afterwards, no further signal fires, so
  no \<^verbatim>\<open>onComplete\<close> follows. A failure of the transport is not turned into
  \<^verbatim>\<open>onError\<close>: the provider listens to the \<^verbatim>\<open>close\<close> event of the socket, which ends
  the connection with \<^verbatim>\<open>onComplete\<close> whatever its close code.
\<close>

theorem error_frame_signals_onError:
  assumes "\<not> isStopped c" and "is_object r" and "get_prop r ''type'' = Some (JString ''error'')"
  shows "(\<exists>c'. dispatch (WsMessage (Some r)) c = Inr (c', [OnError (get_prop r ''message'')])
               \<and> signals_of es c' = [])
       \<and> (\<exists>c'. dispatch (WsClose code) c = Inr (c', [OnComplete]) \<and> signals_of es c' = [])"
  using assms by (simp add: conn_defs signals_of_stopped)

theorem error_frame_signals_onError_witness:
  "dispatch (WsMessage (Some (JObject [(''type'', JString ''error''),
                                       (''message'', JString ''Invalid API key'')])))
      subscribePriceUpdate
     = Inr (\<lparr>isStopped = True, closeCalls = 2, helloSent = 0\<rparr>,
            [OnError (Some (JString ''Invalid API key''))])
   \<and> signals_of [WsClose 1000] \<lparr>isStopped = True, closeCalls = 2, helloSent = 0\<rparr> = []"
proof -
  let ?r = "JObject [(''type'', JString ''error''), (''message'', JString ''Invalid API key'')]"
  have 1: "\<not> isStopped subscribePriceUpdate" by (simp add: subscribePriceUpdate_def)
  have 2: "is_object ?r" by simp
  have 3: "get_prop ?r ''type'' = Some (JString ''error'')" by simp
  have 4: "dispatch (WsMessage (Some ?r)) subscribePriceUpdate
     = Inr (\<lparr>isStopped = True, closeCalls = 2, helloSent = 0\<rparr>,
            [OnError (Some (JString ''Invalid API key''))])"
    by (simp add: conn_defs subscribePriceUpdate_def)
  from error_frame_signals_onError[OF 1 2 3, of "[WsClose 1000]" 1000] 4
  show ?thesis by auto
qed

text \<open>
  Claim C4 as stated fails for a failure of the transport: the loss of the socket
  without a closing handshake (close code 1006) reaches the provider as \<^verbatim>\<open>close\<close> and
  ends the connection with \<^verbatim>\<open>onComplete\<close>; the \<^verbatim>\<open>error\<close> event of the socket raises
  an exception and signals nothing.
\<close>

theorem transport_failure_counterexample:
  "dispatch (WsClose 1006) subscribePriceUpdate
     = Inr (\<lparr>isStopped = True, closeCalls = 1, helloSent = 0\<rparr>, [OnComplete])
   \<and> dispatch WsError subscribePriceUpdate = Inl UnhandledErrorEvent"
  by (simp add: conn_defs subscribePriceUpdate_def)

text \<open>
  Claim C5, as amended. A frame that parses to a value that is not an object (\<^verbatim>\<open>null\<close>,
  a boolean, a number, a string) is dropped: nothing is signalled and the connection is
  unchanged. An object frame not tagged \<^verbatim>\<open>error\<close> whose \<^verbatim>\<open>symbol_id\<close> is a string
  that decodes to no pair is dropped in the same way, whatever type it declares.
\<close>

theorem dropped_frames:
  "(\<not> is_object r \<longrightarrow> dispatch (WsMessage (Some r)) c = Inr (c, []))
   \<and> (is_object r \<and> get_prop r ''type'' \<noteq> Some (JString ''error'')
       \<and> get_prop r ''symbol_id'' = Some (JString symbol_id)
       \<and> symbolToPairExchange symbol_id = None
      \<longrightarrow> dispatch (WsMessage (Some r)) c = Inr (c, []))"
  by (simp add: conn_defs)

theorem dropped_frames_witness:
  "dispatch (WsMessage (Some (JNumber 42))) subscribePriceUpdate = Inr (subscribePriceUpdate, [])
   \<and> dispatch (WsMessage (Some (JObject [(''type'', JString ''trade''),
                                          (''symbol_id'', JString ''KRAKEN_MARGIN_BTC_USD''),
                                          (''price'', JNumber 1)])))
        subscribePriceUpdate = Inr (subscribePriceUpdate, [])"
proof -
  let ?r = "JObject [(''type'', JString ''trade''),
                     (''symbol_id'', JString ''KRAKEN_MARGIN_BTC_USD''), (''price'', JNumber 1)]"
  have a: "\<not> is_object (JNumber 42)" by simp
  have b: "is_object ?r \<and> get_prop ?r ''type'' \<noteq> Some (JString ''error'')
       \<and> get_prop ?r ''symbol_id'' = Some (JString ''KRAKEN_MARGIN_BTC_USD'')
       \<and> symbolToPairExchange ''KRAKEN_MARGIN_BTC_USD'' = None"
    by (simp add: symbolToPairExchange_def seg_def)
  from dropped_frames[where r = "JNumber 42" and c = subscribePriceUpdate] a
  have 1: "dispatch (WsMessage (Some (JNumber 42))) subscribePriceUpdate
      = Inr (subscribePriceUpdate, [])" by blast
  from dropped_frames[where r = ?r and c = subscribePriceUpdate
      and symbol_id = "''KRAKEN_MARGIN_BTC_USD''"] b
  have 2: "dispatch (WsMessage (Some ?r)) subscribePriceUpdate = Inr (subscribePriceUpdate, [])"
    by blast
  from 1 2 show ?thesis by blast
qed

text \<open>
  Claim C5 as stated fails on both counts. A frame that does not parse makes
  \<^verbatim>\<open>JSON.parse\<close> throw, and the exception leaves the listener. A frame of a type the
  provider does not know, here \<^verbatim>\<open>quote\<close>, is passed to the sink when its symbol
  decodes; one without a \<^verbatim>\<open>symbol_id\<close>, here \<^verbatim>\<open>heartbeat\<close>, raises a \<^verbatim>\<open>TypeError\<close>.
\<close>

theorem dropped_frames_counterexample:
  "dispatch (WsMessage None) subscribePriceUpdate = Inl SyntaxError
   \<and> dispatch (WsMessage (Some (JObject [(''type'', JString ''quote''),
                                          (''symbol_id'', JString ''KRAKEN_SPOT_BTC_USD''),
                                          (''price'', JNumber 1)])))
        subscribePriceUpdate
       = Inr (subscribePriceUpdate,
              [OnNext \<lparr>pairExchangeId = \<lparr>id_exchange = Some ''KRAKEN'', id_from = Some ''BTC'',
                                          id_to = Some ''USD''\<rparr>,
                       price = Some (JNumber 1)\<rparr>])
   \<and> dispatch (WsMessage (Some (JObject [(''type'', JString ''heartbeat'')]))) subscribePriceUpdate
       = Inl TypeError"
  by (simp add: conn_defs subscribePriceUpdate_def symbolToPairExchange_def seg_def pairExchange_def)

text \<open>
  Claim C10. On a connection whose subscriber is not stopped, every parsed frame that is
  an object not tagged \<^verbatim>\<open>error\<close> and whose \<^verbatim>\<open>symbol_id\<close> decodes to a pair is passed
  to the sink with the frame's \<^verbatim>\<open>price\<close> as it is: a missing price is passed as
  \<^verbatim>\<open>undefined\<close>, a price that is not a number is passed unchanged.
\<close>

theorem price_verbatim:
  assumes "\<not> isStopped c" and "is_object r"
    and "get_prop r ''type'' \<noteq> Some (JString ''error'')"
    and "get_prop r ''symbol_id'' = Some (JString symbol_id)"
    and "symbolToPairExchange symbol_id = Some p"
  shows "dispatch (WsMessage (Some r)) c
           = Inr (c, [OnNext \<lparr>pairExchangeId = pe_id p, price = get_prop r ''price''\<rparr>])"
  using assms by (simp add: conn_defs)

theorem price_verbatim_witness:
  "dispatch (WsMessage (Some (JObject [(''type'', JString ''trade''),
                                       (''symbol_id'', JString ''KRAKEN_SPOT_BTC_USD'')])))
      subscribePriceUpdate
     = Inr (subscribePriceUpdate,
            [OnNext \<lparr>pairExchangeId = \<lparr>id_exchange = Some ''KRAKEN'', id_from = Some ''BTC'',
                                        id_to = Some ''USD''\<rparr>,
                     price = None\<rparr>])
   \<and> dispatch (WsMessage (Some (JObject [(''type'', JString ''trade''),
                                          (''symbol_id'', JString ''KRAKEN_SPOT_BTC_USD''),
                                          (''price'', JString ''n/a'')])))
        subscribePriceUpdate
       = Inr (subscribePriceUpdate,
              [OnNext \<lparr>pairExchangeId = \<lparr>id_exchange = Some ''KRAKEN'', id_from = Some ''BTC'',
                                          id_to = Some ''USD''\<rparr>,
                       price = Some (JString ''n/a'')\<rparr>])"
proof -
  let ?a = "JObject [(''type'', JString ''trade''), (''symbol_id'', JString ''KRAKEN_SPOT_BTC_USD'')]"
  let ?b = "JObject [(''type'', JString ''trade''), (''symbol_id'', JString ''KRAKEN_SPOT_BTC_USD''),
                     (''price'', JString ''n/a'')]"
  let ?p = "pairExchange (Some ''KRAKEN'') (Some ''BTC'') (Some ''USD'')"
  have live: "\<not> isStopped subscribePriceUpdate" by (simp add: subscribePriceUpdate_def)
  have dec: "symbolToPairExchange ''KRAKEN_SPOT_BTC_USD'' = Some ?p"
    by (simp add: symbolToPairExchange_def seg_def)
  have 1: "dispatch (WsMessage (Some ?a)) subscribePriceUpdate
      = Inr (subscribePriceUpdate, [OnNext \<lparr>pairExchangeId = pe_id ?p, price = get_prop ?a ''price''\<rparr>])"
    by (rule price_verbatim[OF live _ _ _ dec]) simp_all
  have 2: "dispatch (WsMessage (Some ?b)) subscribePriceUpdate
      = Inr (subscribePriceUpdate, [OnNext \<lparr>pairExchangeId = pe_id ?p, price = get_prop ?b ''price''\<rparr>])"
    by (rule price_verbatim[OF live _ _ _ dec]) simp_all
  from 1 2 show ?thesis by (simp add: pairExchange_def)
qed

section \<open>Facts about the supervisor loop\<close>

lemma earliest_in: "earliest ts = Some x \<Longrightarrow> x \<in> set ts \<and> (\<forall>y \<in> set ts. fst x \<le> fst y)"
proof (induction ts arbitrary: x)
  case Nil
  then show ?case by simp
next
  case (Cons a ts)
  show ?case
  proof (cases "earliest ts")
    case None
    then have "ts = []" by (cases ts) (auto split: option.splits if_splits)
    with Cons.prems show ?thesis by simp
  next
    case (Some y)
    with Cons.IH[of y] have y: "y \<in> set ts" "\<forall>z \<in> set ts. fst y \<le> fst z" by auto
    show ?thesis
    proof (cases "fst a \<le> fst y")
      case True
      with Some Cons.prems have "x = a" by simp
      with True y show ?thesis by auto
    next
      case False
      with Some Cons.prems have "x = y" by simp
      with False y show ?thesis by auto
    qed
  qed
qed

lemma deliver_one:
  "now (deliver a s) = now s \<and> conns (deliver a s) = conns s \<and> openedAt (deliver a s) = openedAt s"
  by (cases a) (simp_all add: onError_def onEnd_def setTimeout_def)

lemma deliver_fields:
  "now (fold deliver out s) = now s \<and> conns (fold deliver out s) = conns s \<and>
   openedAt (fold deliver out s) = openedAt s"
  by (induction out arbitrary: s) (simp_all add: deliver_one)

lemma deliver_timers:
  "\<exists>new. timers (fold deliver out s) = timers s @ new \<and>
     (\<forall>x \<in> set new. snd x = PullLoop \<and> now s \<le> fst x)"
proof (induction out arbitrary: s)
  case Nil
  show ?case by simp
next
  case (Cons a out)
  obtain new where new: "timers (fold deliver out (deliver a s)) = timers (deliver a s) @ new"
    "\<forall>x \<in> set new. snd x = PullLoop \<and> now (deliver a s) \<le> fst x"
    using Cons.IH[of "deliver a s"] by blast
  have "\<exists>n1. timers (deliver a s) = timers s @ n1 \<and> (\<forall>x \<in> set n1. snd x = PullLoop \<and> now s \<le> fst x)
     \<and> now (deliver a s) = now s"
    by (cases a) (simp_all add: onError_def onEnd_def setTimeout_def)
  then obtain n1 where n1: "timers (deliver a s) = timers s @ n1"
    "\<forall>x \<in> set n1. snd x = PullLoop \<and> now s \<le> fst x" "now (deliver a s) = now s" by blast
  show ?case
    apply (rule exI[of _ "n1 @ new"])
    using new n1 by auto
qed

lemma wf_start: "wf start"
  by (simp add: wf_def start_def pullLoop_def pullLiveRates_def setTimeout_def subscribePriceUpdate_def)

lemma wf_fire:
  assumes "wf s" "earliest (timers s) = Some (d, f)"
  shows "wf (run_task f (s\<lparr>now := max (now s) d, timers := remove1 (d, f) (timers s)\<rparr>))"
proof -
  from earliest_in[OF assms(2)] have mem: "(d, f) \<in> set (timers s)"
    and least: "\<forall>y \<in> set (timers s). d \<le> fst y" by auto
  from assms(1) mem have nd: "now s \<le> d" by (auto simp: wf_def)
  let ?s = "s\<lparr>now := max (now s) d, timers := remove1 (d, f) (timers s)\<rparr>"
  show ?thesis
  proof (cases f)
    case PullLoop
    have keep: "(x, Rotation n) \<in> set (remove1 (d, f) (timers s)) \<longleftrightarrow> (x, Rotation n) \<in> set (timers s)" for x n
      using PullLoop by (simp add: in_set_remove1)
    have sub: "x \<in> set (remove1 (d, f) (timers s)) \<Longrightarrow> x \<in> set (timers s)" for x
      using set_remove1_subset[of "(d, f)" "timers s"] by auto
    show ?thesis
      using assms(1) nd least PullLoop keep
      by (auto simp: wf_def pullLoop_def pullLiveRates_def setTimeout_def subscribePriceUpdate_def
            nth_append less_Suc_eq max_def dest!: sub)
  next
    case (Rotation m)
    have stop: "isStopped (sub_unsubscribe c)" for c
      by (simp add: sub_unsubscribe_def unsubscribe_def ws_close_def)
    from assms(1) mem Rotation have m: "m < length (conns s)" by (auto simp: wf_def)
    have live: "\<not> isStopped ((conns s)[m := sub_unsubscribe (conns s ! m)] ! n) \<Longrightarrow>
        n < length (conns s) \<Longrightarrow> \<not> isStopped (conns s ! n) \<and> n \<noteq> m" for n
      using stop m by (cases "n = m") auto
    have sub: "x \<in> set (remove1 (d, f) (timers s)) \<Longrightarrow> x \<in> set (timers s)" for x
      using set_remove1_subset[of "(d, f)" "timers s"] by auto
    have keep: "n \<noteq> m \<Longrightarrow> (x, Rotation n) \<in> set (timers s) \<Longrightarrow> (x, Rotation n) \<in> set (remove1 (d, f) (timers s))" for x n
      using Rotation by (simp add: in_set_remove1)
    show ?thesis
      unfolding wf_def Rotation run_task.simps rotation_def cancel_def setTimeout_def
      using assms(1) nd least
      apply (simp add: max_def)
      apply (intro conjI allI impI ballI)
      subgoal by (auto simp: wf_def)
      subgoal by (auto simp: wf_def)
      subgoal for x using sub[of x] by (auto simp: Rotation)
      subgoal for d' n using sub[of "(d', Rotation n)"] by (auto simp: wf_def Rotation)
      subgoal for d' n using sub[of "(d', Rotation n)"] by (auto simp: wf_def Rotation)
      subgoal for n using live[of n] keep[of n "openedAt s ! n + autoRebootInterval"] by (auto simp: wf_def)
      done
  qed
qed

lemma wf_ws:
  assumes "wf s" "ws_enabled n t s" "dispatch e (conns s ! n) = Inr (c', out)"
  shows "wf (fold deliver out (s\<lparr>now := t, conns := (conns s)[n := c']\<rparr>))"
proof -
  let ?s = "s\<lparr>now := t, conns := (conns s)[n := c']\<rparr>"
  obtain new where new: "timers (fold deliver out ?s) = timers ?s @ new"
    "\<forall>x \<in> set new. snd x = PullLoop \<and> now ?s \<le> fst x"
    using deliver_timers[of out ?s] by blast
  have f: "now (fold deliver out ?s) = t" "conns (fold deliver out ?s) = (conns s)[n := c']"
    "openedAt (fold deliver out ?s) = openedAt s"
    using deliver_fields[of out ?s] by simp_all
  have live: "\<not> isStopped ((conns s)[n := c'] ! k) \<Longrightarrow> k < length (conns s) \<Longrightarrow> \<not> isStopped (conns s ! k)" for k
    using dispatch_stopped[OF _ assms(3)] by (cases "k = n") auto
  have rot: "(d, Rotation k) \<in> set new \<Longrightarrow> False" for d k
    using new(2) by force
  show ?thesis
    unfolding wf_def f new(1)
    using assms(1,2) new(2) live rot
    by (auto simp: wf_def ws_enabled_def)
qed

lemma wf_step: "wf s \<Longrightarrow> step e s = Inr s' \<Longrightarrow> wf s'"
proof (cases e)
  case Timer
  assume "wf s" "step e s = Inr s'"
  with Timer wf_fire[of s] show ?thesis
    by (auto split: option.splits prod.splits)
next
  case (Ws n t ev)
  assume "wf s" "step e s = Inr s'"
  with Ws wf_ws[of s n t ev] show ?thesis
    by (auto split: if_splits sum.splits prod.splits)
qed

lemma wf_run: "wf s \<Longrightarrow> run es s = Inr s' \<Longrightarrow> wf s'"
  by (induction es arbitrary: s) (auto split: sum.splits dest: wf_step)

lemma wf_reachable: "run es start = Inr s \<Longrightarrow> wf s"
  using wf_run[OF wf_start] .

lemma step_openedAt_mono:
  assumes "step e s = Inr s'"
  shows "set (openedAt s) \<subseteq> set (openedAt s')"
proof (cases e)
  case Timer
  with assms obtain d f where "earliest (timers s) = Some (d, f)"
    and s': "s' = run_task f (s\<lparr>now := max (now s) d, timers := remove1 (d, f) (timers s)\<rparr>)"
    by (auto split: option.splits)
  show ?thesis unfolding s'
    by (cases f) (auto simp: pullLoop_def pullLiveRates_def rotation_def cancel_def setTimeout_def)
next
  case (Ws n t ev)
  with assms show ?thesis
    by (auto split: if_splits sum.splits simp: deliver_fields)
qed

lemma restart_step:
  assumes "wf s" "step e s = Inr s'"
    and "(D, PullLoop) \<in> set (timers s) \<or> D \<in> set (openedAt s)"
  shows "(D, PullLoop) \<in> set (timers s') \<or> D \<in> set (openedAt s')"
proof (cases "D \<in> set (openedAt s)")
  case True
  with step_openedAt_mono[OF assms(2)] show ?thesis by auto
next
  case False
  with assms(3) have mem: "(D, PullLoop) \<in> set (timers s)" by simp
  show ?thesis
  proof (cases e)
    case Timer
    with assms(2) obtain d f where e: "earliest (timers s) = Some (d, f)"
      and s': "s' = run_task f (s\<lparr>now := max (now s) d, timers := remove1 (d, f) (timers s)\<rparr>)"
      by (auto split: option.splits)
    from earliest_in[OF e] assms(1) have nd: "now s \<le> d" by (auto simp: wf_def)
    show ?thesis
    proof (cases "(d, f) = (D, PullLoop)")
      case True
      with nd show ?thesis unfolding s'
        by (simp add: pullLoop_def pullLiveRates_def setTimeout_def max_def)
    next
      case False
      then have "(D, PullLoop) \<noteq> (d, f)" by auto
      with mem have "(D, PullLoop) \<in> set (remove1 (d, f) (timers s))"
        using in_set_remove1[of "(D, PullLoop)" "(d, f)" "timers s"] by blast
      then show ?thesis unfolding s'
        by (cases f) (auto simp: pullLoop_def pullLiveRates_def rotation_def cancel_def setTimeout_def)
    qed
  next
    case (Ws n t ev)
    with assms(2) obtain c' out where
      s': "s' = fold deliver out (s\<lparr>now := t, conns := (conns s)[n := c']\<rparr>)"
      by (auto split: if_splits sum.splits)
    from deliver_timers[of out "s\<lparr>now := t, conns := (conns s)[n := c']\<rparr>"] mem
    show ?thesis unfolding s' by auto
  qed
qed

lemma restart_run:
  assumes "wf s" "(D, PullLoop) \<in> set (timers s) \<or> D \<in> set (openedAt s)" "run es s = Inr s1"
  shows "(D, PullLoop) \<in> set (timers s1) \<or> D \<in> set (openedAt s1)"
  using assms
proof (induction es arbitrary: s)
  case Nil
  then show ?case by simp
next
  case (Cons e es)
  from Cons.prems(3) obtain s' where st: "step e s = Inr s'" and r: "run es s' = Inr s1"
    by (auto split: sum.splits)
  from wf_step[OF Cons.prems(1) st] restart_step[OF Cons.prems(1) st Cons.prems(2)] r
  show ?case by (rule Cons.IH)
qed

lemma restart_pending_or_opened:
  assumes "wf s" "(D, PullLoop) \<in> set (timers s)" "run es s = Inr s1"
  shows "((D, PullLoop) \<in> set (timers s1) \<and> now s1 \<le> D) \<or> D \<in> set (openedAt s1)"
proof -
  from restart_run[OF assms(1) _ assms(3), of D] assms(2)
  have "(D, PullLoop) \<in> set (timers s1) \<or> D \<in> set (openedAt s1)" by simp
  moreover have "wf s1" using wf_run[OF assms(1,3)] .
  ultimately show ?thesis by (auto simp: wf_def)
qed

lemma step_silent_when_stopped:
  assumes "n < length (conns s)" "isStopped (conns s ! n)" "step (Ws n t e) s = Inr s'"
  shows "timers s' = timers s \<and> sink s' = sink s \<and> errorLog s' = errorLog s \<and> endLog s' = endLog s
     \<and> openedAt s' = openedAt s \<and> length (conns s') = length (conns s) \<and> isStopped (conns s' ! n)"
proof -
  from assms(3) obtain c' out where d: "dispatch e (conns s ! n) = Inr (c', out)"
    and s': "s' = fold deliver out (s\<lparr>now := t, conns := (conns s)[n := c']\<rparr>)"
    by (auto split: if_splits sum.splits)
  from dispatch_stopped[OF assms(2) d] have "out = []" "isStopped c'" by auto
  with s' assms(1) show ?thesis by simp
qed

lemma rotation_pending:
  assumes "wf s" and "n < length (conns s)" and "\<not> isStopped (conns s ! n)"
  shows "(openedAt s ! n + autoRebootInterval, Rotation n) \<in> set (timers s)"
  using assms unfolding wf_def by blast

lemma timer_not_overdue:
  assumes "wf s" and "(d, f) \<in> set (timers s)"
  shows "now s \<le> d"
  using assms unfolding wf_def by fastforce

lemma opened_not_later:
  assumes "wf s" and "x \<in> set (openedAt s)"
  shows "x \<le> now s"
  using assms unfolding wf_def by blast

lemma step_error_frame:
  assumes "ws_enabled n t s" "\<not> isStopped (conns s ! n)"
    "is_object r" "get_prop r ''type'' = Some (JString ''error'')"
  shows "step (Ws n t (WsMessage (Some r))) s =
    Inr (onError (get_prop r ''message'')
          (s\<lparr>now := t, conns := (conns s)[n := ws_close (unsubscribe ((conns s ! n)\<lparr>isStopped := True\<rparr>))]\<rparr>))"
  using assms by (simp add: on_message_def o_error_def)

lemma step_close:
  assumes "ws_enabled n t s" "\<not> isStopped (conns s ! n)"
  shows "step (Ws n t (WsClose code)) s =
    Inr (onEnd (s\<lparr>now := t, conns := (conns s)[n := unsubscribe ((conns s ! n)\<lparr>isStopped := True\<rparr>)]\<rparr>))"
  using assms by (simp add: on_close_def o_complete_def)

lemma start_eval:
  "start = \<lparr>now = 0, timers = [(14400000, Rotation 0)],
            conns = [\<lparr>isStopped = False, closeCalls = 0, helloSent = 0\<rparr>],
            openedAt = [0], sink = [], errorLog = [], endLog = 0\<rparr>"
  by (simp add: start_def pullLoop_def pullLiveRates_def setTimeout_def
        subscribePriceUpdate_def autoRebootInterval_def)

section \<open>Claims about the supervisor loop\<close>

text \<open>
  Claim C1 says that at most one connection is live in every reachable state and that
  every terminal outcome of a connection schedules exactly one restart, also when the
  connection ends before its rotation timer has fired. The loop does not keep this: the
  rotation timer set at line 27 is never cleared, so after an error or a completion it
  still fires and schedules a second restart. In the run below, from the start of the
  process, connection 0 receives an error frame after one second. The restart of the
  error callback opens connection 1 at 61000; the rotation of connection 0 fires at
  14400000, and its restart opens connection 2 at 14410000 while connection 1 is live.
\<close>

theorem stale_rotation_two_live:
  "(case run [Ws 0 1000 (WsMessage (Some (JObject [(''type'', JString ''error'')]))),
              Timer, Timer, Timer] start of
      Inl h \<Rightarrow> None
    | Inr s \<Rightarrow> Some (now s, openedAt s, liveConns s, timers s))
     = Some (14410000, [0, 61000, 14410000], [1, 2],
             [(14461000, Rotation 1), (28810000, Rotation 2)])"
  by (simp add: start_eval ws_enabled_def conn_defs onError_def setTimeout_def
        rebootTimeIfError_def pullLoop_def pullLiveRates_def subscribePriceUpdate_def
        autoRebootInterval_def rotation_def cancel_def autoRebootHangTime_def liveConns_def)

text \<open>
  What the rotation closure of \<^verbatim>\<open>pullLoop\<close> does by itself. In every state the loop
  reaches, a connection \<open>n\<close> that has neither errored nor completed nor been cancelled
  has its rotation pending, due exactly one \<open>autoRebootInterval\<close> after the connection
  was opened, and the clock has not passed that deadline. When that timer fires, the
  clock stands at that deadline, the connection is cancelled and \<^verbatim>\<open>ws.close()\<close> is
  called on its socket, no connection is opened, and exactly one restart is added to the
  pending timers, due \<open>autoRebootHangTime\<close> later. Whatever the socket of the cancelled
  connection emits afterwards, its \<^verbatim>\<open>close\<close> event included, schedules nothing and logs
  nothing. In every later state that restart is either still pending, with the clock not
  past its deadline, or a connection has been opened at exactly that deadline. Restarts
  that other timers have scheduled keep their own deadlines.
\<close>

lemma forced_rotation:
  assumes "run evs start = Inr s" and "n < length (conns s)" and "\<not> isStopped (conns s ! n)"
  shows "(openedAt s ! n + autoRebootInterval, Rotation n) \<in> set (timers s)
       \<and> now s \<le> openedAt s ! n + autoRebootInterval
       \<and> (earliest (timers s) = Some (openedAt s ! n + autoRebootInterval, Rotation n) \<longrightarrow>
            (\<exists>s'. step Timer s = Inr s'
               \<and> now s' = openedAt s ! n + autoRebootInterval
               \<and> isStopped (conns s' ! n)
               \<and> closeCalls (conns s' ! n) = Suc (closeCalls (conns s ! n))
               \<and> openedAt s' = openedAt s
               \<and> timers s' =
                   remove1 (openedAt s ! n + autoRebootInterval, Rotation n) (timers s)
                     @ [(openedAt s ! n + autoRebootInterval + autoRebootHangTime, PullLoop)]
               \<and> (\<forall>t e s''. step (Ws n t e) s' = Inr s'' \<longrightarrow>
                      timers s'' = timers s' \<and> endLog s'' = endLog s' \<and> errorLog s'' = errorLog s')
               \<and> (\<forall>es s1. run es s' = Inr s1 \<longrightarrow>
                      ((openedAt s ! n + autoRebootInterval + autoRebootHangTime, PullLoop)
                          \<in> set (timers s1)
                        \<and> now s1 \<le> openedAt s ! n + autoRebootInterval + autoRebootHangTime)
                      \<or> openedAt s ! n + autoRebootInterval + autoRebootHangTime
                          \<in> set (openedAt s1))))"
proof -
  let ?d = "openedAt s ! n + autoRebootInterval"
  let ?r = "?d + autoRebootHangTime"
  have wf: "wf s" using wf_reachable[OF assms(1)] .
  have pend: "(?d, Rotation n) \<in> set (timers s)"
    using wf assms(2,3) by (rule rotation_pending)
  have le: "now s \<le> ?d"
    using wf pend by (rule timer_not_overdue)
  have fire: "\<exists>s'. step Timer s = Inr s'
               \<and> now s' = ?d
               \<and> isStopped (conns s' ! n)
               \<and> closeCalls (conns s' ! n) = Suc (closeCalls (conns s ! n))
               \<and> openedAt s' = openedAt s
               \<and> timers s' = remove1 (?d, Rotation n) (timers s) @ [(?r, PullLoop)]
               \<and> (\<forall>t e s''. step (Ws n t e) s' = Inr s'' \<longrightarrow>
                      timers s'' = timers s' \<and> endLog s'' = endLog s' \<and> errorLog s'' = errorLog s')
               \<and> (\<forall>es s1. run es s' = Inr s1 \<longrightarrow>
                      ((?r, PullLoop) \<in> set (timers s1) \<and> now s1 \<le> ?r)
                      \<or> ?r \<in> set (openedAt s1))"
    if e: "earliest (timers s) = Some (?d, Rotation n)"
  proof -
    let ?s' = "rotation n (s\<lparr>now := ?d, timers := remove1 (?d, Rotation n) (timers s)\<rparr>)"
    have mx: "max (now s) ?d = ?d" using le by (simp add: max_def)
    have st: "step Timer s = Inr ?s'" by (simp add: e mx)
    have wf': "wf ?s'" using wf_step[OF wf st] .
    have n': "n < length (conns ?s')"
      using assms(2) by (simp add: rotation_def cancel_def setTimeout_def)
    have stopped: "isStopped (conns ?s' ! n)"
      using assms(2)
      by (simp add: rotation_def cancel_def setTimeout_def sub_unsubscribe_def
            unsubscribe_def ws_close_def)
    have tm: "timers ?s' = remove1 (?d, Rotation n) (timers s) @ [(?r, PullLoop)]"
      by (simp add: rotation_def cancel_def setTimeout_def)
    have cl: "closeCalls (conns ?s' ! n) = Suc (closeCalls (conns s ! n))"
      using assms(2,3)
      by (simp add: rotation_def cancel_def setTimeout_def sub_unsubscribe_def
            unsubscribe_def ws_close_def)
    have silent: "\<forall>t e s''. step (Ws n t e) ?s' = Inr s'' \<longrightarrow>
        timers s'' = timers ?s' \<and> endLog s'' = endLog ?s' \<and> errorLog s'' = errorLog ?s'"
      using step_silent_when_stopped[OF n' stopped] by blast
    have mem: "(?r, PullLoop) \<in> set (timers ?s')" unfolding tm by simp
    have later: "\<forall>es s1. run es ?s' = Inr s1 \<longrightarrow>
        ((?r, PullLoop) \<in> set (timers s1) \<and> now s1 \<le> ?r) \<or> ?r \<in> set (openedAt s1)"
      using restart_pending_or_opened[OF wf' mem] by blast
    have nw: "now ?s' = ?d" by (simp add: rotation_def cancel_def setTimeout_def)
    have op: "openedAt ?s' = openedAt s" by (simp add: rotation_def cancel_def setTimeout_def)
    show ?thesis
      apply (rule exI[of _ ?s'])
      apply (intro conjI)
             apply (rule st)
            apply (rule nw)
           apply (rule stopped)
          apply (rule cl)
         apply (rule op)
        apply (rule tm)
       apply (rule silent)
      apply (rule later)
      done
  qed
  show ?thesis
    apply (intro conjI impI)
      apply (rule pend)
     apply (rule le)
    apply (erule fire)
    done
qed

lemma forced_rotation_example:
  "run [] start = Inr start \<and> \<not> isStopped (conns start ! 0)
   \<and> earliest (timers start) = Some (openedAt start ! 0 + autoRebootInterval, Rotation 0)
   \<and> openedAt start ! 0 + autoRebootInterval = 14400000
   \<and> (\<exists>s'. step Timer start = Inr s' \<and> now s' = 14400000 \<and> isStopped (conns s' ! 0)
          \<and> timers s' = [(14410000, PullLoop)])
   \<and> (case run [Timer, Ws 0 14400500 (WsClose 1000), Timer] start of
        Inl h \<Rightarrow> None
      | Inr s \<Rightarrow> Some (now s, openedAt s, liveConns s, timers s, endLog s))
       = Some (14410000, [0, 14410000], [1], [(28810000, Rotation 1)], 0)"
proof -
  have q: "(case run [Timer, Ws 0 14400500 (WsClose 1000), Timer] start of
        Inl h \<Rightarrow> None
      | Inr s \<Rightarrow> Some (now s, openedAt s, liveConns s, timers s, endLog s))
       = Some (14410000, [0, 14410000], [1], [(28810000, Rotation 1)], 0)"
    by (simp add: start_eval ws_enabled_def conn_defs setTimeout_def
        pullLoop_def pullLiveRates_def subscribePriceUpdate_def
        autoRebootInterval_def rotation_def cancel_def autoRebootHangTime_def liveConns_def)
  have a: "run [] start = Inr start" by simp
  have b: "0 < length (conns start)" by (simp add: start_eval)
  have c: "\<not> isStopped (conns start ! 0)" by (simp add: start_eval)
  have d: "openedAt start ! 0 + autoRebootInterval = 14400000"
    by (simp add: start_eval autoRebootInterval_def)
  have e: "earliest (timers start) = Some (openedAt start ! 0 + autoRebootInterval, Rotation 0)"
    unfolding d by (simp add: start_eval)
  have r: "remove1 (14400000, Rotation 0) (timers start) @ [(14400000 + autoRebootHangTime, PullLoop)]
      = [(14410000, PullLoop)]"
    by (simp add: start_eval autoRebootHangTime_def)
  note fr = forced_rotation[OF a b c]
  from fr have "earliest (timers start) = Some (openedAt start ! 0 + autoRebootInterval, Rotation 0)
      \<longrightarrow> (\<exists>s'. step Timer start = Inr s' \<and> now s' = openedAt start ! 0 + autoRebootInterval
             \<and> isStopped (conns s' ! 0)
             \<and> timers s' = remove1 (openedAt start ! 0 + autoRebootInterval, Rotation 0) (timers start)
                  @ [(openedAt start ! 0 + autoRebootInterval + autoRebootHangTime, PullLoop)])"
    by blast
  with e have "\<exists>s'. step Timer start = Inr s' \<and> now s' = openedAt start ! 0 + autoRebootInterval
             \<and> isStopped (conns s' ! 0)
             \<and> timers s' = remove1 (openedAt start ! 0 + autoRebootInterval, Rotation 0) (timers start)
                  @ [(openedAt start ! 0 + autoRebootInterval + autoRebootHangTime, PullLoop)]"
    by (rule mp[rotated])
  then have "\<exists>s'. step Timer start = Inr s' \<and> now s' = 14400000 \<and> isStopped (conns s' ! 0)
          \<and> timers s' = [(14410000, PullLoop)]"
    unfolding d r .
  with a c e d q show ?thesis by (intro conjI)
qed

text \<open>
  Claim C2 says that a connection opened at \<open>t0\<close> that neither errors nor completes is
  cancelled at \<open>t0\<close> plus \<open>autoRebootInterval\<close> and that the next connection opens
  exactly \<open>autoRebootHangTime\<close> later, with one restart for the rotation. The rotation
  closure does its part, but the loop does not keep the claim, because the rotation timer
  of a connection that ended early is never cleared and starts a second loop. From the
  start of the process, let the socket of connection 0 close at 50000. Connection 1 is
  opened at 80000 and never errors or completes. The stale rotation of connection 0 fires
  at 14400000 and its restart opens connection 2 at 14410000; the socket of connection 2
  closes at 14455000, so a restart is due at 14485000. Connection 1 is cancelled at
  14480000, which is 80000 plus \<open>autoRebootInterval\<close>, and its restart is due at
  14490000; the next connection is opened at 14485000, five seconds after the cancel,
  and another one at 14490000.
\<close>

theorem stale_loop_preempts_rotation_restart:
  "(case run [Ws 0 50000 (WsClose 1000), Timer, Timer, Timer, Ws 2 14455000 (WsClose 1000),
              Timer] start of
      Inl h \<Rightarrow> None
    | Inr s \<Rightarrow> Some (now s, openedAt s, liveConns s, timers s))
     = Some (14480000, [0, 80000, 14410000], [],
             [(28810000, Rotation 2), (14485000, PullLoop), (14490000, PullLoop)])
   \<and> (case run [Ws 0 50000 (WsClose 1000), Timer, Timer, Timer, Ws 2 14455000 (WsClose 1000),
                Timer, Timer] start of
        Inl h \<Rightarrow> None
      | Inr s \<Rightarrow> Some (now s, openedAt s, liveConns s, timers s))
       = Some (14485000, [0, 80000, 14410000, 14485000], [3],
               [(28810000, Rotation 2), (14490000, PullLoop), (28885000, Rotation 3)])
   \<and> (case run [Ws 0 50000 (WsClose 1000), Timer, Timer, Timer, Ws 2 14455000 (WsClose 1000),
                Timer, Timer, Timer] start of
        Inl h \<Rightarrow> None
      | Inr s \<Rightarrow> Some (now s, openedAt s, liveConns s, timers s))
       = Some (14490000, [0, 80000, 14410000, 14485000, 14490000], [3, 4],
               [(28810000, Rotation 2), (28885000, Rotation 3), (28890000, Rotation 4)])"
  by (simp add: start_eval ws_enabled_def conn_defs onEnd_def setTimeout_def
        rebootTimeIfComplete_def pullLoop_def pullLiveRates_def subscribePriceUpdate_def
        autoRebootInterval_def rotation_def cancel_def autoRebootHangTime_def liveConns_def)

text \<open>
  What the two callbacks of \<^verbatim>\<open>pullLoop\<close> do by themselves. In every state the loop
  reaches, let an error frame arrive at time \<open>t\<close> on a connection that is not stopped:
  the error callback runs at \<open>t\<close>, the connection is stopped, no connection is opened,
  and exactly one restart is added to the pending timers, due \<open>rebootTimeIfError\<close>
  after \<open>t\<close>; no connection has been opened at that instant or later so far. In every
  later state that restart is either still pending, with the clock not past its
  deadline, or a connection has been opened at exactly that deadline. The same holds for
  the \<^verbatim>\<open>close\<close> event and \<open>rebootTimeIfComplete\<close>. Timers that were pending before
  \<open>t\<close> keep their own deadlines.
\<close>

lemma restart_delays:
  assumes "run evs start = Inr s" and "ws_enabled n t s" and "\<not> isStopped (conns s ! n)"
    and "is_object r" and "get_prop r ''type'' = Some (JString ''error'')"
  shows "(\<exists>s'. step (Ws n t (WsMessage (Some r))) s = Inr s'
            \<and> now s' = t \<and> isStopped (conns s' ! n) \<and> openedAt s' = openedAt s
            \<and> timers s' = timers s @ [(t + rebootTimeIfError, PullLoop)]
            \<and> (\<forall>x \<in> set (openedAt s'). x < t + rebootTimeIfError)
            \<and> (\<forall>es s1. run es s' = Inr s1 \<longrightarrow>
                  ((t + rebootTimeIfError, PullLoop) \<in> set (timers s1)
                    \<and> now s1 \<le> t + rebootTimeIfError)
                  \<or> t + rebootTimeIfError \<in> set (openedAt s1)))
       \<and> (\<exists>s'. step (Ws n t (WsClose code)) s = Inr s'
            \<and> now s' = t \<and> isStopped (conns s' ! n) \<and> openedAt s' = openedAt s
            \<and> timers s' = timers s @ [(t + rebootTimeIfComplete, PullLoop)]
            \<and> (\<forall>x \<in> set (openedAt s'). x < t + rebootTimeIfComplete)
            \<and> (\<forall>es s1. run es s' = Inr s1 \<longrightarrow>
                  ((t + rebootTimeIfComplete, PullLoop) \<in> set (timers s1)
                    \<and> now s1 \<le> t + rebootTimeIfComplete)
                  \<or> t + rebootTimeIfComplete \<in> set (openedAt s1)))"
proof -
  have wf: "wf s" using wf_reachable[OF assms(1)] .
  have n: "n < length (conns s)" and nt: "now s \<le> t"
    using assms(2) by (simp_all add: ws_enabled_def)
  have old: "x \<le> t" if "x \<in> set (openedAt s)" for x
    using opened_not_later[OF wf that] nt by simp
  have part: "\<exists>s'. step e s = Inr s'
            \<and> now s' = t \<and> isStopped (conns s' ! n) \<and> openedAt s' = openedAt s
            \<and> timers s' = timers s @ [(t + delay, PullLoop)]
            \<and> (\<forall>x \<in> set (openedAt s'). x < t + delay)
            \<and> (\<forall>es s1. run es s' = Inr s1 \<longrightarrow>
                  ((t + delay, PullLoop) \<in> set (timers s1) \<and> now s1 \<le> t + delay)
                  \<or> t + delay \<in> set (openedAt s1))"
    if st: "step e s = Inr s'" and nw: "now s' = t" and stp: "isStopped (conns s' ! n)"
      and op: "openedAt s' = openedAt s" and tm: "timers s' = timers s @ [(t + delay, PullLoop)]"
      and pos: "0 < delay"
    for e s' delay
  proof -
    have wf': "wf s'" using wf_step[OF wf st] .
    have mem: "(t + delay, PullLoop) \<in> set (timers s')" unfolding tm by simp
    have later: "\<forall>es s1. run es s' = Inr s1 \<longrightarrow>
        ((t + delay, PullLoop) \<in> set (timers s1) \<and> now s1 \<le> t + delay)
        \<or> t + delay \<in> set (openedAt s1)"
      using restart_pending_or_opened[OF wf' mem] by blast
    have before: "\<forall>x \<in> set (openedAt s'). x < t + delay"
      unfolding op using old pos by fastforce
    show ?thesis
      apply (rule exI[of _ s'])
      apply (intro conjI)
            apply (rule st)
           apply (rule nw)
          apply (rule stp)
         apply (rule op)
        apply (rule tm)
       apply (rule before)
      apply (rule later)
      done
  qed
  let ?e = "onError (get_prop r ''message'')
          (s\<lparr>now := t, conns := (conns s)[n := ws_close (unsubscribe ((conns s ! n)\<lparr>isStopped := True\<rparr>))]\<rparr>)"
  let ?c = "onEnd (s\<lparr>now := t, conns := (conns s)[n := unsubscribe ((conns s ! n)\<lparr>isStopped := True\<rparr>)]\<rparr>)"
  have A: "step (Ws n t (WsMessage (Some r))) s = Inr ?e"
    using assms(2-5) by (rule step_error_frame)
  have B: "step (Ws n t (WsClose code)) s = Inr ?c"
    using assms(2,3) by (rule step_close)
  have e1: "now ?e = t" "openedAt ?e = openedAt s"
    "timers ?e = timers s @ [(t + rebootTimeIfError, PullLoop)]"
    by (simp_all add: onError_def setTimeout_def)
  have e2: "isStopped (conns ?e ! n)"
    using n by (simp add: onError_def setTimeout_def unsubscribe_def ws_close_def)
  have c1: "now ?c = t" "openedAt ?c = openedAt s"
    "timers ?c = timers s @ [(t + rebootTimeIfComplete, PullLoop)]"
    by (simp_all add: onEnd_def setTimeout_def)
  have c2: "isStopped (conns ?c ! n)"
    using n by (simp add: onEnd_def setTimeout_def unsubscribe_def ws_close_def)
  have pe: "0 < rebootTimeIfError" by (simp add: rebootTimeIfError_def)
  have pc: "0 < rebootTimeIfComplete" by (simp add: rebootTimeIfComplete_def)
  show ?thesis
    apply (rule conjI)
     apply (rule part[OF A e1(1) e2 e1(2) e1(3) pe])
    apply (rule part[OF B c1(1) c2 c1(2) c1(3) pc])
    done
qed

lemma restart_delays_example:
  "run [] start = Inr start \<and> ws_enabled 0 1000 start \<and> \<not> isStopped (conns start ! 0)
   \<and> (\<exists>s'. step (Ws 0 1000 (WsMessage (Some (JObject [(''type'', JString ''error'')])))) start
              = Inr s'
          \<and> timers s' = [(14400000, Rotation 0), (61000, PullLoop)])
   \<and> (\<exists>s'. step (Ws 0 1000 (WsClose 1000)) start = Inr s'
          \<and> timers s' = [(14400000, Rotation 0), (31000, PullLoop)])
   \<and> (case run [Ws 0 1000 (WsMessage (Some (JObject [(''type'', JString ''error'')]))), Timer]
              start of
        Inl h \<Rightarrow> None | Inr s \<Rightarrow> Some (now s, openedAt s, liveConns s))
       = Some (61000, [0, 61000], [1])
   \<and> (case run [Ws 0 1000 (WsClose 1000), Timer] start of
        Inl h \<Rightarrow> None | Inr s \<Rightarrow> Some (now s, openedAt s, liveConns s))
       = Some (31000, [0, 31000], [1])"
proof -
  let ?r = "JObject [(''type'', JString ''error'')]"
  have q1: "(case run [Ws 0 1000 (WsMessage (Some ?r)), Timer] start of
        Inl h \<Rightarrow> None | Inr s \<Rightarrow> Some (now s, openedAt s, liveConns s))
       = Some (61000, [0, 61000], [1])"
    by (simp add: start_eval ws_enabled_def conn_defs onError_def setTimeout_def
        rebootTimeIfError_def pullLoop_def pullLiveRates_def subscribePriceUpdate_def
        autoRebootInterval_def liveConns_def)
  have q2: "(case run [Ws 0 1000 (WsClose 1000), Timer] start of
        Inl h \<Rightarrow> None | Inr s \<Rightarrow> Some (now s, openedAt s, liveConns s))
       = Some (31000, [0, 31000], [1])"
    by (simp add: start_eval ws_enabled_def conn_defs onEnd_def setTimeout_def
        rebootTimeIfComplete_def pullLoop_def pullLiveRates_def subscribePriceUpdate_def
        autoRebootInterval_def liveConns_def)
  have a: "run [] start = Inr start" by simp
  have b: "ws_enabled 0 1000 start" by (simp add: ws_enabled_def start_eval)
  have c: "\<not> isStopped (conns start ! 0)" by (simp add: start_eval)
  have d: "is_object ?r" by simp
  have e: "get_prop ?r ''type'' = Some (JString ''error'')" by simp
  have te: "timers start @ [(1000 + rebootTimeIfError, PullLoop)]
      = [(14400000, Rotation 0), (61000, PullLoop)]"
    by (simp add: start_eval rebootTimeIfError_def)
  have tc: "timers start @ [(1000 + rebootTimeIfComplete, PullLoop)]
      = [(14400000, Rotation 0), (31000, PullLoop)]"
    by (simp add: start_eval rebootTimeIfComplete_def)
  note rd = restart_delays[OF a b c d e, of 1000]
  from rd have "\<exists>s'. step (Ws 0 1000 (WsMessage (Some ?r))) start = Inr s'
      \<and> timers s' = timers start @ [(1000 + rebootTimeIfError, PullLoop)]"
    by blast
  then have 1: "\<exists>s'. step (Ws 0 1000 (WsMessage (Some ?r))) start = Inr s'
      \<and> timers s' = [(14400000, Rotation 0), (61000, PullLoop)]"
    unfolding te .
  from rd have "\<exists>s'. step (Ws 0 1000 (WsClose 1000)) start = Inr s'
      \<and> timers s' = timers start @ [(1000 + rebootTimeIfComplete, PullLoop)]"
    by blast
  then have 2: "\<exists>s'. step (Ws 0 1000 (WsClose 1000)) start = Inr s'
      \<and> timers s' = [(14400000, Rotation 0), (31000, PullLoop)]"
    unfolding tc .
  from a b c 1 2 q1 q2 show ?thesis by (intro conjI)
qed

text \<open>
  Claim C3 says that after an error signal at time \<open>t\<close> the supervisor waits and the
  replacement connection opens at \<open>t\<close> plus \<open>rebootTimeIfError\<close> and not earlier, and
  likewise \<open>rebootTimeIfComplete\<close> after a completion. The callbacks schedule their
  restart at exactly that time, but the rotation timer of the connection that ended is
  still pending. From the start of the process, let the error frame reach connection 0
  at 14370000, thirty seconds before its rotation is due: the restart of the error
  callback is due at 14430000, the rotation fires at 14400000 and its restart opens
  connection 1 at 14410000, forty seconds after the error, while the restart of the
  callback is still pending; that one then opens connection 2. With a \<^verbatim>\<open>close\<close> event at
  14385000 the restart of the completion callback is due at 14415000, and connection 1
  is opened at 14410000 as before.
\<close>

theorem stale_rotation_preempts_restart:
  "(case run [Ws 0 14370000 (WsMessage (Some (JObject [(''type'', JString ''error'')]))),
              Timer, Timer] start of
      Inl h \<Rightarrow> None
    | Inr s \<Rightarrow> Some (now s, openedAt s, liveConns s, timers s))
     = Some (14410000, [0, 14410000], [1],
             [(14430000, PullLoop), (28810000, Rotation 1)])
   \<and> (case run [Ws 0 14370000 (WsMessage (Some (JObject [(''type'', JString ''error'')]))),
                Timer, Timer, Timer] start of
        Inl h \<Rightarrow> None
      | Inr s \<Rightarrow> Some (now s, openedAt s, liveConns s, timers s))
       = Some (14430000, [0, 14410000, 14430000], [1, 2],
               [(28810000, Rotation 1), (28830000, Rotation 2)])
   \<and> (case run [Ws 0 14385000 (WsClose 1000), Timer, Timer] start of
        Inl h \<Rightarrow> None
      | Inr s \<Rightarrow> Some (now s, openedAt s, liveConns s, timers s))
       = Some (14410000, [0, 14410000], [1],
               [(14415000, PullLoop), (28810000, Rotation 1)])"
  by (simp add: start_eval ws_enabled_def conn_defs onError_def onEnd_def setTimeout_def
        rebootTimeIfError_def rebootTimeIfComplete_def pullLoop_def pullLiveRates_def
        subscribePriceUpdate_def autoRebootInterval_def rotation_def cancel_def
        autoRebootHangTime_def liveConns_def)

text \<open>
  Claim C9. Cancelling a subscription twice is the same as cancelling it once, for the
  connection and for the loop that holds it. From the moment of the cancel no signal
  fires for the connection, whatever the socket emits afterwards: frames still in the
  transport, error frames and the \<^verbatim>\<open>close\<close> event included. In the loop every such
  event leaves the pending timers, the sink and both logs as they were, so no restart is
  scheduled by it.
\<close>

theorem cancel_idempotent:
  "sub_unsubscribe (sub_unsubscribe c) = sub_unsubscribe c
   \<and> signals_of es (sub_unsubscribe c) = []
   \<and> cancel n (cancel n s) = cancel n s
   \<and> (\<forall>t e s'. n < length (conns s) \<and> step (Ws n t e) (cancel n s) = Inr s' \<longrightarrow>
         timers s' = timers s \<and> sink s' = sink s \<and> errorLog s' = errorLog s
         \<and> endLog s' = endLog s \<and> isStopped (conns s' ! n))"
proof -
  have stop: "isStopped (sub_unsubscribe c)" for c
    by (simp add: sub_unsubscribe_def unsubscribe_def ws_close_def)
  have idem: "sub_unsubscribe (sub_unsubscribe c) = sub_unsubscribe c" for c
    using stop[of c] by (simp add: sub_unsubscribe_def[of "sub_unsubscribe c"])
  have quiet: "signals_of es (sub_unsubscribe c) = []"
    using stop by (rule signals_of_stopped)
  have twice: "cancel n (cancel n s) = cancel n s"
    by (cases "n < length (conns s)") (simp_all add: cancel_def idem list_update_beyond)
  have later: "timers s' = timers s \<and> sink s' = sink s \<and> errorLog s' = errorLog s
         \<and> endLog s' = endLog s \<and> isStopped (conns s' ! n)"
    if "n < length (conns s)" "step (Ws n t e) (cancel n s) = Inr s'" for t e s'
  proof -
    have 1: "n < length (conns (cancel n s))" using that(1) by (simp add: cancel_def)
    have 2: "isStopped (conns (cancel n s) ! n)" using that(1) stop by (simp add: cancel_def)
    from step_silent_when_stopped[OF 1 2 that(2)] show ?thesis by (simp add: cancel_def)
  qed
  show ?thesis
    apply (intro conjI allI impI)
           apply (rule idem)
          apply (rule quiet)
         apply (rule twice)
    using later apply blast+
    done
qed

theorem cancel_idempotent_witness:
  "0 < length (conns start)
   \<and> step (Ws 0 5 (WsClose 1000)) (cancel 0 start) = Inr ((cancel 0 start)\<lparr>now := 5\<rparr>)
   \<and> timers ((cancel 0 start)\<lparr>now := 5\<rparr>) = timers start
   \<and> endLog ((cancel 0 start)\<lparr>now := 5\<rparr>) = endLog start
   \<and> signals_of [WsMessage (Some (JObject [(''type'', JString ''error'')])), WsClose 1000]
        (sub_unsubscribe subscribePriceUpdate) = []"
proof -
  have a: "0 < length (conns start)" by (simp add: start_eval)
  have b: "step (Ws 0 5 (WsClose 1000)) (cancel 0 start) = Inr ((cancel 0 start)\<lparr>now := 5\<rparr>)"
    by (simp add: start_eval cancel_def ws_enabled_def conn_defs)
  note ci = cancel_idempotent[of subscribePriceUpdate
      "[WsMessage (Some (JObject [(''type'', JString ''error'')])), WsClose 1000]" 0 start]
  from ci a b have c: "timers ((cancel 0 start)\<lparr>now := 5\<rparr>) = timers start
      \<and> endLog ((cancel 0 start)\<lparr>now := 5\<rparr>) = endLog start"
    by blast
  from ci have d: "signals_of [WsMessage (Some (JObject [(''type'', JString ''error'')])), WsClose 1000]
        (sub_unsubscribe subscribePriceUpdate) = []"
    by blast
  from a b c d show ?thesis by (intro conjI) auto
qed

end
